theory Spec2Isabelle
  imports Complex_Main "HOL-Library.Word" "HOL-Library.Log_Nat"
begin

section \<open>The screen recorder of \<^verbatim>\<open>record.py\<close>\<close>

text \<open>
  \<^verbatim>\<open>record_screen\<close> talks to four outside parties: the \<^verbatim>\<open>mss\<close> screen grabber, the
  OpenCV video writer, the wall clock and the \<^verbatim>\<open>threading.Event\<close> called \<^verbatim>\<open>stop_flag\<close>.
  The model passes an explicit world of type \<open>'w\<close> through every such call; what each
  call answers is decided by an environment, a record of functions on the world.
  An exception raised by a call is a value the environment returns.

  In the model of the run, Python's \<^verbatim>\<open>float\<close> time stamps are exact rationals: the
  comparison and the additions of the pacing code are the exact ones, with no IEEE
  rounding. Lines 45 to 49 are modelled a second time in double arithmetic (\<open>double_pace\<close>),
  where the rounding of the sum and of the difference is part of the property.
  The file name built from \<^verbatim>\<open>datetime.now()\<close> and the two \<^verbatim>\<open>print\<close> calls have no
  influence on the loop and are left out.
\<close>

subsection \<open>Data\<close>

datatype exn = ScreenShotError | IndexError | Cv2Error | ZeroDivisionError

text \<open>An entry of \<^verbatim>\<open>sct.monitors\<close>: a dictionary with these four keys.\<close>

record monitor =
  mon_left :: int
  mon_top :: int
  mon_width :: nat
  mon_height :: nat

text \<open>
  A numpy array of bytes of shape \<^verbatim>\<open>(height, width, channels)\<close>, stored row by row in
  one flat buffer, as \<^verbatim>\<open>np.array(sct.grab(monitor))\<close> yields it (four channels: B, G, R, A).
\<close>

record image =
  img_height :: nat
  img_width :: nat
  img_channels :: nat
  img_data :: "8 word list"

text \<open>The calls \<^verbatim>\<open>record_screen\<close> makes, in the order it makes them.\<close>

datatype call =
    Call_mss
  | Call_monitors
  | Call_VideoWriter rat nat nat
  | Call_time
  | Call_is_set
  | Call_grab
  | Call_cvtColor
  | Call_write image
  | Call_sleep rat
  | Call_release
  | Call_close

text \<open>
  The environment. \<open>env_mss\<close> is \<^verbatim>\<open>mss.mss()\<close> entering the \<^verbatim>\<open>with\<close> block and
  \<open>env_close\<close> leaving it; \<open>env_VideoWriter\<close> is the constructor \<^verbatim>\<open>cv2.VideoWriter\<close>,
  which either raises or returns a writer, opened or not (what \<^verbatim>\<open>isOpened()\<close> would
  tell); \<open>env_grab\<close> is \<^verbatim>\<open>np.array(sct.grab(monitor))\<close> and \<open>env_cvtColor\<close> the call
  \<^verbatim>\<open>cv2.cvtColor(img, cv2.COLOR_BGRA2BGR)\<close>, both of libraries whose code is not part of the
  repository; \<open>env_write\<close> and \<open>env_release\<close> are \<^verbatim>\<open>out.write\<close> and \<^verbatim>\<open>out.release\<close>.
\<close>

record 'w env =
  env_mss :: "'w \<Rightarrow> exn option \<times> 'w"
  env_monitors :: "'w \<Rightarrow> monitor list \<times> 'w"
  env_VideoWriter :: "rat \<Rightarrow> nat \<times> nat \<Rightarrow> 'w \<Rightarrow> (exn + bool) \<times> 'w"
  env_time :: "'w \<Rightarrow> rat \<times> 'w"
  env_is_set :: "'w \<Rightarrow> bool \<times> 'w"
  env_grab :: "monitor \<Rightarrow> 'w \<Rightarrow> (exn + image) \<times> 'w"
  env_cvtColor :: "image \<Rightarrow> 'w \<Rightarrow> (exn + image) \<times> 'w"
  env_write :: "image \<Rightarrow> 'w \<Rightarrow> exn option \<times> 'w"
  env_sleep :: "rat \<Rightarrow> 'w \<Rightarrow> 'w"
  env_release :: "'w \<Rightarrow> 'w"
  env_close :: "'w \<Rightarrow> 'w"

text \<open>
  The local variables of \<^verbatim>\<open>record_screen\<close> that the loop reads, and the list of the
  calls made so far (kept by the model only).
\<close>

record pstate =
  monitor_of :: monitor
  frame_interval :: rat
  next_frame_time :: rat
  calls :: "call list"

datatype outcome = Running | Finished | Raised exn


subsection \<open>The function \<^verbatim>\<open>record_screen\<close>\<close>

definition add_calls :: "call list \<Rightarrow> pstate \<Rightarrow> pstate" where
  "add_calls cs s = s\<lparr>calls := calls s @ cs\<rparr>"

text \<open>Lines 45 to 49: the next frame time, and the resynchronisation.\<close>

definition pace :: "rat \<Rightarrow> pstate \<Rightarrow> pstate" where
  "pace current_time s =
     (let s1 = s\<lparr>next_frame_time := next_frame_time s + frame_interval s\<rparr>
      in if current_time - next_frame_time s1 > frame_interval s1
         then s1\<lparr>next_frame_time := current_time\<rparr>
         else s1)"

text \<open>
  One turn of the \<^verbatim>\<open>while\<close> loop, lines 35 to 52: the test of the stop flag and, when
  it is not set, the body. \<open>Finished\<close> is the loop left by its condition, \<open>Raised\<close> an
  exception that leaves the loop (nothing in \<^verbatim>\<open>record_screen\<close> catches one).
\<close>

definition iteration :: "'w env \<Rightarrow> 'w \<Rightarrow> pstate \<Rightarrow> outcome \<times> 'w \<times> pstate" where
  "iteration env w s =
     (case env_is_set env w of (stopped, w1) \<Rightarrow>
        if stopped then (Finished, w1, add_calls [Call_is_set] s)
        else
          (case env_time env w1 of (current_time, w2) \<Rightarrow>
             if current_time \<ge> next_frame_time s then
               (case env_grab env (monitor_of s) w2 of
                  (Inl e, w3) \<Rightarrow> (Raised e, w3, add_calls [Call_is_set, Call_time, Call_grab] s)
                | (Inr img, w3) \<Rightarrow>
                    (case env_cvtColor env img w3 of
                       (Inl e, w4) \<Rightarrow>
                         (Raised e, w4, add_calls [Call_is_set, Call_time, Call_grab, Call_cvtColor] s)
                     | (Inr frame, w4) \<Rightarrow>
                         (case env_write env frame w4 of
                            (Some e, w5) \<Rightarrow>
                              (Raised e, w5,
                               add_calls [Call_is_set, Call_time, Call_grab, Call_cvtColor,
                                    Call_write frame] s)
                          | (None, w5) \<Rightarrow>
                              (Running, w5,
                               pace current_time
                                 (add_calls [Call_is_set, Call_time, Call_grab, Call_cvtColor,
                                       Call_write frame] s)))))
             else
               (Running, env_sleep env (1 / 1000) w2,
                add_calls [Call_is_set, Call_time, Call_sleep (1 / 1000)] s)))"

text \<open>
  The loop, run for at most \<open>n\<close> turns: the loop has no bound of its own, and \<open>Running\<close>
  is the answer when it has not ended after \<open>n\<close> turns.
\<close>

fun loop :: "'w env \<Rightarrow> nat \<Rightarrow> 'w \<Rightarrow> pstate \<Rightarrow> outcome \<times> 'w \<times> pstate" where
  "loop env 0 w s = (Running, w, s)"
| "loop env (Suc n) w s =
     (case iteration env w s of
        (Running, w', s') \<Rightarrow> loop env n w' s'
      | r \<Rightarrow> r)"

text \<open>
  Lines 18 to 33, up to the loop. An exception raised inside the \<^verbatim>\<open>with\<close> block leaves
  the block, which closes \<^verbatim>\<open>sct\<close>. \<^verbatim>\<open>sct.monitors[1]\<close> raises \<^verbatim>\<open>IndexError\<close> on a list
  with fewer than two entries, and \<^verbatim>\<open>1.0 / FPS\<close> raises on a zero rate. The value the
  constructor returns is bound to \<^verbatim>\<open>out\<close> and never inspected.
\<close>

definition initialise :: "'w env \<Rightarrow> rat \<Rightarrow> 'w \<Rightarrow> (exn \<times> 'w \<times> call list) + ('w \<times> pstate)" where
  "initialise env fps w =
     (case env_mss env w of
        (Some e, w1) \<Rightarrow> Inl (e, w1, [Call_mss])
      | (None, w1) \<Rightarrow>
          (case env_monitors env w1 of (monitors, w2) \<Rightarrow>
             if length monitors \<le> 1 then
               Inl (IndexError, env_close env w2, [Call_mss, Call_monitors, Call_close])
             else
               let monitor = monitors ! 1;
                   width = mon_width monitor;
                   height = mon_height monitor
               in (case env_VideoWriter env fps (width, height) w2 of
                     (Inl e, w3) \<Rightarrow>
                       Inl (e, env_close env w3,
                            [Call_mss, Call_monitors, Call_VideoWriter fps width height,
                             Call_close])
                   | (Inr opened, w3) \<Rightarrow>
                       if fps = 0 then
                         Inl (ZeroDivisionError, env_close env w3,
                              [Call_mss, Call_monitors, Call_VideoWriter fps width height,
                               Call_close])
                       else
                         (case env_time env w3 of (t0, w4) \<Rightarrow>
                            Inr (w4,
                                 \<lparr>monitor_of = monitor,
                                  frame_interval = 1 / fps,
                                  next_frame_time = t0,
                                  calls = [Call_mss, Call_monitors,
                                           Call_VideoWriter fps width height, Call_time]\<rparr>)))))"

text \<open>
  The whole function, with the loop run for at most \<open>n\<close> turns. After the loop comes
  \<^verbatim>\<open>out.release()\<close>, then the end of the \<^verbatim>\<open>with\<close> block. An exception out of the loop
  skips the release and only leaves the \<^verbatim>\<open>with\<close> block.
\<close>

definition record_screen :: "'w env \<Rightarrow> rat \<Rightarrow> nat \<Rightarrow> 'w \<Rightarrow> outcome \<times> 'w \<times> call list" where
  "record_screen env fps n w =
     (case initialise env fps w of
        Inl (e, w', cs) \<Rightarrow> (Raised e, w', cs)
      | Inr (w0, s0) \<Rightarrow>
          (case loop env n w0 s0 of
             (Running, w', s') \<Rightarrow> (Running, w', calls s')
           | (Finished, w', s') \<Rightarrow>
               (Finished, env_close env (env_release env w'),
                calls s' @ [Call_release, Call_close])
           | (Raised e, w', s') \<Rightarrow> (Raised e, env_close env w', calls s' @ [Call_close])))"

subsection \<open>Lines 45 to 49 in double arithmetic\<close>












subsection \<open>A simulated world\<close>

text \<open>
  A world with a clock that only the calls move. The controlling thread sets the stop
  flag when the clock reaches \<open>stop_at\<close>. The \<open>k\<close>th grab takes \<open>grab_cost k\<close> and raises
  when \<open>grab_fails k\<close>; likewise the writes. \<^verbatim>\<open>time.sleep(d)\<close> takes \<open>d + oversleep\<close>.
  The world notes the clock at every write, and how often the writer was released.
\<close>

record sim =
  clock :: rat
  stop_at :: "rat option"
  sink_ok :: bool
  grab_cost :: "nat \<Rightarrow> rat"
  grab_fails :: "nat \<Rightarrow> bool"
  write_cost :: "nat \<Rightarrow> rat"
  write_fails :: "nat \<Rightarrow> bool"
  oversleep :: rat
  grabbed :: nat
  written_at :: "rat list"
  released :: nat

definition screen_shot :: "monitor \<Rightarrow> image" where
  "screen_shot m =
     \<lparr>img_height = mon_height m, img_width = mon_width m, img_channels = 4,
      img_data = replicate (mon_height m * mon_width m * 4) 0\<rparr>"

definition sim_monitors :: "monitor list" where
  "sim_monitors =
     [\<lparr>mon_left = 0, mon_top = 0, mon_width = 2, mon_height = 1\<rparr>,
      \<lparr>mon_left = 0, mon_top = 0, mon_width = 2, mon_height = 1\<rparr>]"

definition sim_is_set :: "sim \<Rightarrow> bool" where
  "sim_is_set w = (case stop_at w of None \<Rightarrow> False | Some t \<Rightarrow> t \<le> clock w)"

definition sim_grab :: "monitor \<Rightarrow> sim \<Rightarrow> (exn + image) \<times> sim" where
  "sim_grab m w =
     (if grab_fails w (grabbed w) then Inl ScreenShotError else Inr (screen_shot m),
      w\<lparr>clock := clock w + grab_cost w (grabbed w), grabbed := grabbed w + 1\<rparr>)"

text \<open>The simulated conversion keeps the first three bytes of every four and takes no time.\<close>

fun drop_alpha :: "8 word list \<Rightarrow> 8 word list" where
  "drop_alpha (b # g # r # a # rest) = b # g # r # drop_alpha rest"
| "drop_alpha rest = []"

definition sim_cvtColor :: "image \<Rightarrow> sim \<Rightarrow> (exn + image) \<times> sim" where
  "sim_cvtColor img w = (Inr (img\<lparr>img_channels := 3, img_data := drop_alpha (img_data img)\<rparr>), w)"

definition sim_write :: "image \<Rightarrow> sim \<Rightarrow> exn option \<times> sim" where
  "sim_write frame w =
     (if write_fails w (length (written_at w))
      then (Some Cv2Error, w\<lparr>clock := clock w + write_cost w (length (written_at w))\<rparr>)
      else (None,
            w\<lparr>clock := clock w + write_cost w (length (written_at w)),
              written_at := written_at w @ [clock w]\<rparr>))"

definition sim_env :: "sim env" where
  "sim_env =
     \<lparr>env_mss = (\<lambda>w. (None, w)),
      env_monitors = (\<lambda>w. (sim_monitors, w)),
      env_VideoWriter = (\<lambda>fps size w. (Inr (sink_ok w), w)),
      env_time = (\<lambda>w. (clock w, w)),
      env_is_set = (\<lambda>w. (sim_is_set w, w)),
      env_grab = sim_grab,
      env_cvtColor = sim_cvtColor,
      env_write = sim_write,
      env_sleep = (\<lambda>d w. w\<lparr>clock := clock w + d + oversleep w\<rparr>),
      env_release = (\<lambda>w. w\<lparr>released := released w + 1\<rparr>),
      env_close = (\<lambda>w. w)\<rparr>"

text \<open>Calls that take no time, and calls of which only the \<open>j\<close>th takes time.\<close>

definition no_cost :: "nat \<Rightarrow> rat" where
  "no_cost k = 0"

definition one_stall :: "nat \<Rightarrow> rat \<Rightarrow> nat \<Rightarrow> rat" where
  "one_stall j d k = (if k = j then d else 0)"

text \<open>
  The world at the start: clock at zero, nothing grabbed or written yet, no call that
  raises, an exact sleep.
\<close>

definition sim_start :: "rat option \<Rightarrow> (nat \<Rightarrow> rat) \<Rightarrow> (nat \<Rightarrow> rat) \<Rightarrow> sim" where
  "sim_start stop gc wc =
     \<lparr>clock = 0, stop_at = stop, sink_ok = True, grab_cost = gc, grab_fails = (\<lambda>k. False),
      write_cost = wc, write_fails = (\<lambda>k. False), oversleep = 0, grabbed = 0,
      written_at = [], released = 0\<rparr>"

text \<open>The locals at the head of the loop in the simulated world, for a rate and a first deadline.\<close>

definition sim_state :: "rat \<Rightarrow> rat \<Rightarrow> pstate" where
  "sim_state fps t0 =
     \<lparr>monitor_of = sim_monitors ! 1, frame_interval = 1 / fps, next_frame_time = t0, calls = []\<rparr>"

text \<open>A grab or a write that raises at its \<open>j\<close>th call only.\<close>

definition fails_at :: "nat \<Rightarrow> nat \<Rightarrow> bool" where
  "fails_at j k \<longleftrightarrow> k = j"

text \<open>The simulated environment with a constructor \<^verbatim>\<open>cv2.VideoWriter\<close> that raises.\<close>

definition raising_writer :: "sim env" where
  "raising_writer = sim_env\<lparr>env_VideoWriter := (\<lambda>fps size w. (Inl Cv2Error, w))\<rparr>"

subsection \<open>Counting the writers\<close>

text \<open>
  Any environment, with two counters added to its world: the writers that the constructor
  has returned, and the calls of \<^verbatim>\<open>out.release\<close>. Nothing else changes.
\<close>

definition counted :: "'w env \<Rightarrow> ('w \<times> nat \<times> nat) env" where
  "counted env =
     \<lparr>env_mss = (\<lambda>(w, c). case env_mss env w of (r, w') \<Rightarrow> (r, (w', c))),
      env_monitors = (\<lambda>(w, c). case env_monitors env w of (r, w') \<Rightarrow> (r, (w', c))),
      env_VideoWriter =
        (\<lambda>fps size (w, made, freed).
           case env_VideoWriter env fps size w of
             (Inl e, w') \<Rightarrow> (Inl e, (w', made, freed))
           | (Inr b, w') \<Rightarrow> (Inr b, (w', made + 1, freed))),
      env_time = (\<lambda>(w, c). case env_time env w of (r, w') \<Rightarrow> (r, (w', c))),
      env_is_set = (\<lambda>(w, c). case env_is_set env w of (r, w') \<Rightarrow> (r, (w', c))),
      env_grab = (\<lambda>m (w, c). case env_grab env m w of (r, w') \<Rightarrow> (r, (w', c))),
      env_cvtColor = (\<lambda>img (w, c). case env_cvtColor env img w of (r, w') \<Rightarrow> (r, (w', c))),
      env_write = (\<lambda>frame (w, c). case env_write env frame w of (r, w') \<Rightarrow> (r, (w', c))),
      env_sleep = (\<lambda>d (w, c). (env_sleep env d w, c)),
      env_release = (\<lambda>(w, made, freed). (env_release env w, made, freed + 1)),
      env_close = (\<lambda>(w, c). (env_close env w, c))\<rparr>"

subsection \<open>Notions for the proofs\<close>

text \<open>The calls that construct a writer.\<close>

fun is_VideoWriter :: "call \<Rightarrow> bool" where
  "is_VideoWriter (Call_VideoWriter fps width height) = True"
| "is_VideoWriter c = False"

text \<open>
  A simulated world in which no call raises and no call takes negative time; two worlds
  with the same settings; the frame the simulated grab yields after conversion; and a
  bound on the turns left before a stop flag set at \<open>T\<close> is seen: the sleeps that fit
  before \<open>T\<close> plus the frames that can fall due before \<open>T\<close>.
\<close>

definition steady :: "sim \<Rightarrow> bool" where
  "steady w \<longleftrightarrow>
     (\<forall>k. \<not> grab_fails w k) \<and> (\<forall>k. \<not> write_fails w k) \<and>
     (\<forall>k. 0 \<le> grab_cost w k) \<and> (\<forall>k. 0 \<le> write_cost w k) \<and> 0 \<le> oversleep w"

definition same_setup :: "sim \<Rightarrow> sim \<Rightarrow> bool" where
  "same_setup w w' \<longleftrightarrow>
     stop_at w' = stop_at w \<and> sink_ok w' = sink_ok w \<and> grab_cost w' = grab_cost w \<and>
     grab_fails w' = grab_fails w \<and> write_cost w' = write_cost w \<and>
     write_fails w' = write_fails w \<and> oversleep w' = oversleep w"

definition sim_frame :: "pstate \<Rightarrow> image" where
  "sim_frame s =
     \<lparr>img_height = mon_height (monitor_of s), img_width = mon_width (monitor_of s),
      img_channels = 3,
      img_data = drop_alpha (replicate (mon_height (monitor_of s) * mon_width (monitor_of s) * 4) 0)\<rparr>"

definition potential :: "rat \<Rightarrow> sim \<Rightarrow> pstate \<Rightarrow> nat" where
  "potential T w s =
     nat \<lceil>(T - clock w) * 1000\<rceil> + nat (\<lfloor>(T - next_frame_time s) / frame_interval s\<rfloor> + 1)"

text \<open>The locals with which the simulated run reaches the loop.\<close>

definition sim_locals :: "rat \<Rightarrow> sim \<Rightarrow> pstate" where
  "sim_locals fps w =
     \<lparr>monitor_of = sim_monitors ! 1, frame_interval = 1 / fps, next_frame_time = clock w,
      calls = [Call_mss, Call_monitors, Call_VideoWriter fps 2 1, Call_time]\<rparr>"

text \<open>
  How many more frames can be written while the clock stands at \<open>t\<close>, and the bound on a
  burst that the loop keeps: no write time lies in the future, no instant carries more
  than four writes, and the writes at the present instant leave room for those still due.
\<close>

definition room :: "pstate \<Rightarrow> rat \<Rightarrow> nat" where
  "room s t =
     (let lag = t - next_frame_time s; I = frame_interval s
      in if lag < 0 then 0 else if lag < I then 1 else if lag = 2 * I then 3 else 2)"


text \<open>
  The run is within the latency bound of a stop flag set at \<open>T\<close>, when every grab with
  its write takes at most \<open>cyc\<close>: the clock is at most one cycle or one sleep past \<open>T\<close>,
  every write began less than one cycle after \<open>T\<close>, and the writer is not released.
\<close>

definition within_latency :: "rat \<Rightarrow> rat \<Rightarrow> sim \<Rightarrow> pstate \<Rightarrow> bool" where
  "within_latency T cyc w s \<longleftrightarrow>
     stop_at w = Some T \<and> (\<forall>k. grab_cost w k + write_cost w k \<le> cyc) \<and>
     clock w \<le> T + max cyc (1 / 1000 + oversleep w) \<and>
     (\<forall>t\<in>set (written_at w). t < T + cyc) \<and> grabbed w = length (written_at w) \<and>
     released w = 0"

section \<open>Properties\<close>

subsection \<open>The pacing state and the loop\<close>

lemma pace_interval [simp]: "frame_interval (pace t s) = frame_interval s"
  by (simp add: pace_def Let_def)

lemma pace_calls [simp]: "calls (pace t s) = calls s"
  by (simp add: pace_def Let_def)

lemma pace_monitor [simp]: "monitor_of (pace t s) = monitor_of s"
  by (simp add: pace_def Let_def)

lemma pace_next:
  "next_frame_time (pace t s) =
     (if t - (next_frame_time s + frame_interval s) > frame_interval s then t
      else next_frame_time s + frame_interval s)"
  by (simp add: pace_def Let_def)

lemma add_calls_simps [simp]:
  "frame_interval (add_calls cs s) = frame_interval s"
  "next_frame_time (add_calls cs s) = next_frame_time s"
  "monitor_of (add_calls cs s) = monitor_of s"
  "calls (add_calls cs s) = calls s @ cs"
  by (simp_all add: add_calls_def)

lemma pace_mono: "0 \<le> frame_interval s \<Longrightarrow> next_frame_time s \<le> next_frame_time (pace t s)"
  by (simp add: pace_next)

lemma frame_written_then_paced:
  assumes "env_is_set env w = (False, w1)"
    and "env_time env w1 = (now, w2)"
    and "next_frame_time s \<le> now"
    and "env_grab env (monitor_of s) w2 = (Inr img, w3)"
    and "env_cvtColor env img w3 = (Inr frame, w4)"
    and "env_write env frame w4 = (None, w5)"
  shows "iteration env w s =
           (Running, w5,
            pace now
              (add_calls [Call_is_set, Call_time, Call_grab, Call_cvtColor, Call_write frame] s))"
  using assms by (simp add: iteration_def)

lemma iteration_interval:
  "iteration env w s = (oc, w', s') \<Longrightarrow> frame_interval s' = frame_interval s"
  by (auto simp: iteration_def split: prod.splits if_splits sum.splits option.splits)

lemma iteration_mono:
  "iteration env w s = (oc, w', s') \<Longrightarrow> 0 \<le> frame_interval s \<Longrightarrow>
   next_frame_time s \<le> next_frame_time s'"
  by (auto simp: iteration_def pace_next split: prod.splits if_splits sum.splits option.splits)

lemma loop_interval:
  "loop env n w s = (oc, w', s') \<Longrightarrow> frame_interval s' = frame_interval s"
proof (induction n arbitrary: w s)
  case 0
  then show ?case by simp
next
  case (Suc n)
  obtain oc1 w1 s1 where it: "iteration env w s = (oc1, w1, s1)"
    by (cases "iteration env w s") auto
  show ?case
  proof (cases oc1)
    case Running
    with Suc.prems it have "loop env n w1 s1 = (oc, w', s')" by simp
    from Suc.IH [OF this] iteration_interval [OF it] show ?thesis by simp
  next
    case Finished
    with Suc.prems it iteration_interval [OF it] show ?thesis by auto
  next
    case (Raised e)
    with Suc.prems it iteration_interval [OF it] show ?thesis by auto
  qed
qed

lemma loop_mono:
  "loop env n w s = (oc, w', s') \<Longrightarrow> 0 \<le> frame_interval s \<Longrightarrow>
   next_frame_time s \<le> next_frame_time s'"
proof (induction n arbitrary: w s)
  case 0
  then show ?case by simp
next
  case (Suc n)
  obtain oc1 w1 s1 where it: "iteration env w s = (oc1, w1, s1)"
    by (cases "iteration env w s") auto
  note m1 = iteration_mono [OF it Suc.prems(2)]
  show ?case
  proof (cases oc1)
    case Running
    with Suc.prems it have l: "loop env n w1 s1 = (oc, w', s')" by simp
    have "0 \<le> frame_interval s1" using iteration_interval [OF it] Suc.prems(2) by simp
    from Suc.IH [OF l this] m1 show ?thesis by simp
  next
    case Finished
    with Suc.prems it m1 show ?thesis by auto
  next
    case (Raised e)
    with Suc.prems it m1 show ?thesis by auto
  qed
qed

lemma loop_add:
  "loop env (m + k) w s =
     (case loop env m w s of (Running, w', s') \<Rightarrow> loop env k w' s' | r \<Rightarrow> r)"
proof (induction m arbitrary: w s)
  case 0
  then show ?case by simp
next
  case (Suc m)
  obtain oc1 w1 s1 where it: "iteration env w s = (oc1, w1, s1)"
    by (cases "iteration env w s") auto
  show ?case using it Suc.IH [of w1 s1] by (cases oc1) simp_all
qed

lemma cvt_screen_shot:
  "sim_cvtColor (screen_shot m) w =
     (Inr \<lparr>img_height = mon_height m, img_width = mon_width m, img_channels = 3,
           img_data = drop_alpha (replicate (mon_height m * mon_width m * 4) 0)\<rparr>, w)"
  by (simp add: sim_cvtColor_def screen_shot_def)

subsection \<open>The calls of a run\<close>

lemma iteration_calls:
  "iteration env w s = (oc, w', s') \<Longrightarrow>
   \<exists>cs. calls s' = calls s @ cs \<and> Call_release \<notin> set cs \<and> filter is_VideoWriter cs = []"
  by (auto simp: iteration_def split: prod.splits if_splits sum.splits option.splits)

lemma loop_calls:
  "loop env n w s = (oc, w', s') \<Longrightarrow>
   \<exists>cs. calls s' = calls s @ cs \<and> Call_release \<notin> set cs \<and> filter is_VideoWriter cs = []"
proof (induction n arbitrary: w s)
  case 0
  then show ?case by simp
next
  case (Suc n)
  obtain oc1 w1 s1 where it: "iteration env w s = (oc1, w1, s1)"
    by (cases "iteration env w s") auto
  from iteration_calls [OF it] obtain cs1 where
    c1: "calls s1 = calls s @ cs1" "Call_release \<notin> set cs1" "filter is_VideoWriter cs1 = []"
    by blast
  show ?case
  proof (cases oc1)
    case Running
    with Suc.prems it have "loop env n w1 s1 = (oc, w', s')" by simp
    from Suc.IH [OF this] obtain cs2 where
      c2: "calls s' = calls s1 @ cs2" "Call_release \<notin> set cs2" "filter is_VideoWriter cs2 = []"
      by blast
    show ?thesis
      using c1 c2 by (intro exI [of _ "cs1 @ cs2"]) simp
  next
    case Finished
    with Suc.prems it c1 show ?thesis by auto
  next
    case (Raised e)
    with Suc.prems it c1 show ?thesis by auto
  qed
qed

lemma initialise_calls:
  "initialise env fps w = Inr (w0, s0) \<Longrightarrow>
   Call_release \<notin> set (calls s0) \<and> length (filter is_VideoWriter (calls s0)) = 1"
  by (auto simp: initialise_def Let_def split: prod.splits if_splits sum.splits option.splits)

lemma initialise_raises_calls:
  "initialise env fps w = Inl (e, w', cs) \<Longrightarrow>
   Call_release \<notin> set cs \<and> length (filter is_VideoWriter cs) \<le> 1"
  by (auto simp: initialise_def Let_def split: prod.splits if_splits sum.splits option.splits)

lemma count_list_0: "x \<notin> set xs \<Longrightarrow> count_list xs x = 0"
  by (simp add: count_list_0_iff)

subsection \<open>The loop in the simulated world\<close>

lemma sim_iteration:
  assumes "steady w"
  shows "iteration sim_env w s =
     (if sim_is_set w then (Finished, w, add_calls [Call_is_set] s)
      else if next_frame_time s \<le> clock w then
        (Running,
         w\<lparr>clock := clock w + grab_cost w (grabbed w) + write_cost w (length (written_at w)),
           grabbed := grabbed w + 1,
           written_at := written_at w @ [clock w + grab_cost w (grabbed w)]\<rparr>,
         pace (clock w)
           (add_calls [Call_is_set, Call_time, Call_grab, Call_cvtColor, Call_write (sim_frame s)] s))
      else
        (Running, w\<lparr>clock := clock w + 1 / 1000 + oversleep w\<rparr>,
         add_calls [Call_is_set, Call_time, Call_sleep (1 / 1000)] s))"
  using assms
  by (simp add: iteration_def sim_env_def steady_def sim_grab_def sim_write_def
      cvt_screen_shot sim_frame_def)

lemma same_setup_refl [simp]: "same_setup w w"
  by (simp add: same_setup_def)

lemma same_setup_trans: "same_setup w w1 \<Longrightarrow> same_setup w1 w2 \<Longrightarrow> same_setup w w2"
  by (simp add: same_setup_def)

lemma same_setup_steady: "same_setup w w' \<Longrightarrow> steady w \<Longrightarrow> steady w'"
  by (simp add: same_setup_def steady_def)

lemma sim_iteration_setup:
  "steady w \<Longrightarrow> iteration sim_env w s = (oc, w', s') \<Longrightarrow> same_setup w w'"
  by (auto simp: sim_iteration same_setup_def split: if_splits)

lemma sim_iteration_not_raised:
  "steady w \<Longrightarrow> iteration sim_env w s \<noteq> (Raised e, w', s')"
  by (auto simp: sim_iteration split: if_splits)

lemma sim_iteration_finished:
  "steady w \<Longrightarrow> iteration sim_env w s = (Finished, w', s') \<Longrightarrow>
   sim_is_set w \<and> w' = w \<and> s' = add_calls [Call_is_set] s"
  by (auto simp: sim_iteration split: if_splits)

lemma sim_iteration_running:
  "steady w \<Longrightarrow> iteration sim_env w s = (Running, w', s') \<Longrightarrow> \<not> sim_is_set w"
  by (auto simp: sim_iteration split: if_splits)

lemma sim_loop_invariant:
  assumes "steady w" and "P w s"
    and step: "\<And>w s w' s'. steady w \<Longrightarrow> P w s \<Longrightarrow> \<not> sim_is_set w \<Longrightarrow>
                 iteration sim_env w s = (Running, w', s') \<Longrightarrow> P w' s'"
    and logged: "\<And>w s cs. P w s \<Longrightarrow> P w (add_calls cs s)"
    and "loop sim_env n w s = (oc, w', s')"
  shows "P w' s' \<and> same_setup w w' \<and> oc \<noteq> Raised e \<and> (oc = Finished \<longrightarrow> sim_is_set w')"
  using assms(1,2,5)
proof (induction n arbitrary: w s)
  case 0
  then show ?case by simp
next
  case (Suc n)
  obtain oc1 w1 s1 where it: "iteration sim_env w s = (oc1, w1, s1)"
    by (cases "iteration sim_env w s") auto
  note su = sim_iteration_setup [OF Suc.prems(1) it]
  show ?case
  proof (cases oc1)
    case Running
    with Suc.prems it have l: "loop sim_env n w1 s1 = (oc, w', s')" by simp
    have ns: "\<not> sim_is_set w" using sim_iteration_running Suc.prems(1) it Running by blast
    have p1: "P w1 s1" using step [OF Suc.prems(1,2) ns] it Running by simp
    have st1: "steady w1" using same_setup_steady [OF su Suc.prems(1)] .
    from Suc.IH [OF st1 p1 l] su show ?thesis by (auto intro: same_setup_trans)
  next
    case Finished
    from sim_iteration_finished [OF Suc.prems(1)] it Finished
    have f: "sim_is_set w" "w1 = w" "s1 = add_calls [Call_is_set] s" by simp_all
    have "oc = Finished" "w' = w" "s' = add_calls [Call_is_set] s"
      using Suc.prems(3) it Finished f by simp_all
    then show ?thesis using f logged [OF Suc.prems(2)] by simp
  next
    case (Raised x)
    with sim_iteration_not_raised [OF Suc.prems(1)] it show ?thesis by blast
  qed
qed

lemma sleeps_left_decreases:
  fixes T c d :: rat
  assumes "c < T" and "1 / 1000 \<le> d"
  shows "nat \<lceil>(T - (c + d)) * 1000\<rceil> < nat \<lceil>(T - c) * 1000\<rceil>"
proof -
  have "(T - (c + d)) * 1000 \<le> (T - c) * 1000 - 1" using assms(2) by simp
  then have "\<lceil>(T - (c + d)) * 1000\<rceil> \<le> \<lceil>(T - c) * 1000 - 1\<rceil>" by (rule ceiling_mono)
  also have "\<dots> = \<lceil>(T - c) * 1000\<rceil> - 1" by simp
  finally have a: "\<lceil>(T - (c + d)) * 1000\<rceil> < \<lceil>(T - c) * 1000\<rceil>" by simp
  have "0 < (T - c) * 1000" using assms(1) by simp
  then have "0 < \<lceil>(T - c) * 1000\<rceil>" by simp
  with a show ?thesis by simp
qed

lemma sleeps_left_mono:
  fixes T c d :: rat
  assumes "0 \<le> d"
  shows "nat \<lceil>(T - (c + d)) * 1000\<rceil> \<le> nat \<lceil>(T - c) * 1000\<rceil>"
proof -
  have "(T - (c + d)) * 1000 \<le> (T - c) * 1000" using assms by simp
  then have "\<lceil>(T - (c + d)) * 1000\<rceil> \<le> \<lceil>(T - c) * 1000\<rceil>" by (rule ceiling_mono)
  then show ?thesis by simp
qed

lemma writes_left_decreases:
  fixes T x x' I :: rat
  assumes "0 < I" and "x < T" and "x + I \<le> x'"
  shows "nat (\<lfloor>(T - x') / I\<rfloor> + 1) < nat (\<lfloor>(T - x) / I\<rfloor> + 1)"
proof -
  have "T - x' \<le> (T - x) - I" using assms(3) by simp
  then have "(T - x') / I \<le> ((T - x) - I) / I"
    using assms(1) by (simp add: divide_right_mono)
  also have "\<dots> = (T - x) / I - 1" using assms(1) by (simp add: diff_divide_distrib)
  finally have "\<lfloor>(T - x') / I\<rfloor> \<le> \<lfloor>(T - x) / I - 1\<rfloor>" by (rule floor_mono)
  then have a: "\<lfloor>(T - x') / I\<rfloor> + 1 < \<lfloor>(T - x) / I\<rfloor> + 1" by simp
  have "0 \<le> (T - x) / I" using assms(1,2) by simp
  then have "0 \<le> \<lfloor>(T - x) / I\<rfloor>" by simp
  with a show ?thesis by simp
qed

lemma pace_advances:
  "0 < frame_interval s \<Longrightarrow> next_frame_time s + frame_interval s \<le> next_frame_time (pace t s)"
  by (simp add: pace_next)

lemma sim_potential_decreases:
  assumes "steady w" and "stop_at w = Some T" and "0 < frame_interval s"
    and "iteration sim_env w s = (Running, w', s')"
  shows "potential T w' s' < potential T w s"
proof -
  have ns: "\<not> sim_is_set w" using sim_iteration_running assms(1,4) by blast
  then have cT: "clock w < T" using assms(2) by (simp add: sim_is_set_def)
  show ?thesis
  proof (cases "next_frame_time s \<le> clock w")
    case True
    let ?d = "grab_cost w (grabbed w) + write_cost w (length (written_at w))"
    let ?l = "add_calls [Call_is_set, Call_time, Call_grab, Call_cvtColor, Call_write (sim_frame s)] s"
    have w': "clock w' = clock w + ?d" and s': "s' = pace (clock w) ?l"
      using assms(4) ns True by (auto simp: sim_iteration [OF assms(1)])
    have d: "0 \<le> ?d" using assms(1) by (simp add: steady_def)
    have a: "nat \<lceil>(T - clock w') * 1000\<rceil> \<le> nat \<lceil>(T - clock w) * 1000\<rceil>"
      unfolding w' by (rule sleeps_left_mono [OF d])
    have adv: "next_frame_time s + frame_interval s \<le> next_frame_time s'"
      using pace_advances [of ?l "clock w"] assms(3) by (simp add: s')
    have xT: "next_frame_time s < T" using True cT by simp
    have b: "nat (\<lfloor>(T - next_frame_time s') / frame_interval s\<rfloor> + 1)
               < nat (\<lfloor>(T - next_frame_time s) / frame_interval s\<rfloor> + 1)"
      by (rule writes_left_decreases [OF assms(3) xT adv])
    have i: "frame_interval s' = frame_interval s" by (simp add: s')
    show ?thesis unfolding potential_def i using a b by linarith
  next
    case False
    have w': "clock w' = clock w + (1 / 1000 + oversleep w)"
      and s': "s' = add_calls [Call_is_set, Call_time, Call_sleep (1 / 1000)] s"
      using assms(4) ns False by (auto simp: sim_iteration [OF assms(1)])
    have d: "1 / 1000 \<le> 1 / 1000 + oversleep w" using assms(1) by (simp add: steady_def)
    have a: "nat \<lceil>(T - clock w') * 1000\<rceil> < nat \<lceil>(T - clock w) * 1000\<rceil>"
      unfolding w' by (rule sleeps_left_decreases [OF cT d])
    have i: "frame_interval s' = frame_interval s" "next_frame_time s' = next_frame_time s"
      by (simp_all add: s')
    show ?thesis unfolding potential_def i using a by linarith
  qed
qed

lemma sim_loop_terminates:
  assumes "steady w" and "stop_at w = Some T" and "0 < frame_interval s"
    and "potential T w s < n"
  shows "fst (loop sim_env n w s) = Finished"
  using assms
proof (induction n arbitrary: w s)
  case 0
  then show ?case by simp
next
  case (Suc n)
  obtain oc1 w1 s1 where it: "iteration sim_env w s = (oc1, w1, s1)"
    by (cases "iteration sim_env w s") auto
  show ?case
  proof (cases oc1)
    case Running
    note su = sim_iteration_setup [OF Suc.prems(1) it]
    have st1: "steady w1" using same_setup_steady [OF su Suc.prems(1)] .
    have sa1: "stop_at w1 = Some T" using su Suc.prems(2) by (simp add: same_setup_def)
    have i1: "0 < frame_interval s1" using iteration_interval [OF it] Suc.prems(3) by simp
    have "potential T w1 s1 < potential T w s"
      using sim_potential_decreases [OF Suc.prems(1-3)] it Running by simp
    then have "potential T w1 s1 < n" using Suc.prems(4) by simp
    from Suc.IH [OF st1 sa1 i1 this] show ?thesis using it Running by simp
  next
    case Finished
    then show ?thesis using it by simp
  next
    case (Raised x)
    with sim_iteration_not_raised [OF Suc.prems(1)] it show ?thesis by blast
  qed
qed

subsection \<open>Runs in the simulated world\<close>

lemma sim_initialise:
  "fps \<noteq> 0 \<Longrightarrow> initialise sim_env fps w = Inr (w, sim_locals fps w)"
  by (simp add: initialise_def sim_env_def sim_monitors_def sim_locals_def)

lemma sim_record_screen:
  assumes "fps \<noteq> 0" and "loop sim_env n w (sim_locals fps w) = (oc, w', s')"
  shows "record_screen sim_env fps n w =
           (case oc of
              Running \<Rightarrow> (Running, w', calls s')
            | Finished \<Rightarrow>
                (Finished, w'\<lparr>released := released w' + 1\<rparr>, calls s' @ [Call_release, Call_close])
            | Raised e \<Rightarrow> (Raised e, w', calls s' @ [Call_close]))"
proof -
  have e: "env_close sim_env = (\<lambda>w. w)"
    "env_release sim_env = (\<lambda>w. w\<lparr>released := released w + 1\<rparr>)"
    by (simp_all add: sim_env_def)
  show ?thesis
    using assms by (simp add: record_screen_def sim_initialise e split: outcome.splits)
qed


subsection \<open>Bursts in the simulated world\<close>


lemma room_add_calls [simp]: "room (add_calls cs s) t = room s t"
  by (simp add: room_def)






lemma four_at_once:
  "(case record_screen sim_env 10 20 (sim_start (Some (301 / 1000)) (one_stall 0 (3 / 10)) no_cost) of
      (oc, w', cs) \<Rightarrow> (oc, written_at w')) = (Finished, [3 / 10, 3 / 10, 3 / 10, 3 / 10])"
  by code_simp

subsection \<open>The turns of the loop and the stop flag\<close>

lemma iteration_turn:
  "iteration env w s = (oc, w', s') \<Longrightarrow>
   \<exists>cs. calls s' = calls s @ cs \<and> Call_release \<notin> set cs \<and>
        count_list cs Call_is_set =
          count_list cs Call_grab + count_list cs (Call_sleep (1 / 1000)) +
          (if oc = Finished then 1 else 0)"
  by (auto simp: iteration_def split: prod.splits if_splits sum.splits option.splits)

lemma loop_turns:
  "loop env n w s = (oc, w', s') \<Longrightarrow>
   \<exists>cs. calls s' = calls s @ cs \<and> Call_release \<notin> set cs \<and>
        count_list cs Call_is_set =
          count_list cs Call_grab + count_list cs (Call_sleep (1 / 1000)) +
          (if oc = Finished then 1 else 0)"
proof (induction n arbitrary: w s)
  case 0
  then show ?case by simp
next
  case (Suc n)
  obtain oc1 w1 s1 where it: "iteration env w s = (oc1, w1, s1)"
    by (cases "iteration env w s") auto
  from iteration_turn [OF it] obtain cs1 where
    c1: "calls s1 = calls s @ cs1" "Call_release \<notin> set cs1"
      "count_list cs1 Call_is_set =
         count_list cs1 Call_grab + count_list cs1 (Call_sleep (1 / 1000)) +
         (if oc1 = Finished then 1 else 0)"
    by blast
  show ?case
  proof (cases oc1)
    case Running
    with Suc.prems it have "loop env n w1 s1 = (oc, w', s')" by simp
    from Suc.IH [OF this] obtain cs2 where
      c2: "calls s' = calls s1 @ cs2" "Call_release \<notin> set cs2"
        "count_list cs2 Call_is_set =
           count_list cs2 Call_grab + count_list cs2 (Call_sleep (1 / 1000)) +
           (if oc = Finished then 1 else 0)"
      by blast
    show ?thesis
      using c1 c2 Running by (intro exI [of _ "cs1 @ cs2"]) simp
  next
    case Finished
    with Suc.prems it have "oc = Finished" "s' = s1" by simp_all
    with c1 Finished show ?thesis by blast
  next
    case (Raised e)
    with Suc.prems it have "oc = Raised e" "s' = s1" by simp_all
    with c1 Raised show ?thesis by blast
  qed
qed

lemma initialise_no_turn:
  "initialise env fps w = Inr (w0, s0) \<Longrightarrow>
   Call_release \<notin> set (calls s0) \<and> count_list (calls s0) Call_is_set = 0 \<and>
   count_list (calls s0) Call_grab = 0 \<and> count_list (calls s0) (Call_sleep (1 / 1000)) = 0"
  by (auto simp: initialise_def Let_def split: prod.splits if_splits sum.splits option.splits)

lemma initialise_raises_no_turn:
  "initialise env fps w = Inl (e, w', cs) \<Longrightarrow>
   Call_release \<notin> set cs \<and> count_list cs Call_is_set = 0 \<and>
   count_list cs Call_grab = 0 \<and> count_list cs (Call_sleep (1 / 1000)) = 0"
  by (auto simp: initialise_def Let_def split: prod.splits if_splits sum.splits option.splits)

lemma dropWhile_absent: "x \<notin> set xs \<Longrightarrow> dropWhile (\<lambda>c. c \<noteq> x) xs = []"
  by (induction xs) auto

lemma dropWhile_first:
  "x \<notin> set xs \<Longrightarrow> dropWhile (\<lambda>c. c \<noteq> x) (xs @ x # ys) = x # ys"
  by (induction xs) auto

lemma record_screen_turns:
  assumes "record_screen env fps n w = (oc, w', cs)"
  shows "count_list cs Call_is_set =
           count_list cs Call_grab + count_list cs (Call_sleep (1 / 1000)) +
           (if oc = Finished then 1 else 0) \<and>
         dropWhile (\<lambda>c. c \<noteq> Call_release) cs =
           (if oc = Finished then [Call_release, Call_close] else [])"
proof (cases "initialise env fps w")
  case (Inl r)
  obtain e wr cr where r: "r = (e, wr, cr)" by (cases r) auto
  have "oc = Raised e" "cs = cr" using assms Inl r by (simp_all add: record_screen_def)
  with initialise_raises_no_turn [of env fps w e wr cr] Inl r show ?thesis
    by (simp add: dropWhile_absent)
next
  case (Inr r)
  obtain w0 s0 where r: "r = (w0, s0)" by (cases r) auto
  note i = initialise_no_turn [of env fps w w0 s0]
  obtain oc1 w1 s1 where l: "loop env n w0 s0 = (oc1, w1, s1)"
    by (cases "loop env n w0 s0") auto
  from loop_turns [OF l] obtain cl where
    c: "calls s1 = calls s0 @ cl" "Call_release \<notin> set cl"
      "count_list cl Call_is_set =
         count_list cl Call_grab + count_list cl (Call_sleep (1 / 1000)) +
         (if oc1 = Finished then 1 else 0)"
    by blast
  have nr: "Call_release \<notin> set (calls s1)" using i Inr r c by simp
  have t: "count_list (calls s1) Call_is_set =
             count_list (calls s1) Call_grab + count_list (calls s1) (Call_sleep (1 / 1000)) +
             (if oc1 = Finished then 1 else 0)"
    using i Inr r c by simp
  show ?thesis
  proof (cases oc1)
    case Running
    with assms Inr r l have "oc = Running" "cs = calls s1" by (simp_all add: record_screen_def)
    with t nr Running show ?thesis by (simp add: dropWhile_absent)
  next
    case Finished
    with assms Inr r l have "oc = Finished" "cs = calls s1 @ [Call_release, Call_close]"
      by (simp_all add: record_screen_def)
    with t nr Finished show ?thesis by (simp add: dropWhile_first)
  next
    case (Raised e)
    with assms Inr r l have "oc = Raised e" "cs = calls s1 @ [Call_close]"
      by (simp_all add: record_screen_def)
    with t nr Raised show ?thesis by (simp add: dropWhile_absent)
  qed
qed

lemma within_latency_step:
  assumes "steady w" and "within_latency T cyc w s" and "\<not> sim_is_set w"
    and "iteration sim_env w s = (Running, w', s')"
  shows "within_latency T cyc w' s'"
proof -
  note wl = assms(2) [unfolded within_latency_def]
  have cT: "clock w < T" using wl assms(3) by (simp add: sim_is_set_def)
  show ?thesis
  proof (cases "next_frame_time s \<le> clock w")
    case True
    let ?g = "grab_cost w (grabbed w)" and ?h = "write_cost w (length (written_at w))"
    have w': "w' = w\<lparr>clock := clock w + ?g + ?h, grabbed := grabbed w + 1,
                      written_at := written_at w @ [clock w + ?g]\<rparr>"
      using assms(3,4) True by (auto simp: sim_iteration [OF assms(1)])
    have h: "0 \<le> ?h" and g: "0 \<le> ?g" using assms(1) by (simp_all add: steady_def)
    have "?g + ?h \<le> cyc" using wl by simp
    then have a: "clock w + ?g + ?h < T + cyc" and b: "clock w + ?g < T + cyc"
      using cT h by simp_all
    have c: "clock w' \<le> T + max cyc (1 / 1000 + oversleep w')"
      using a by (simp add: w' max_def)
    show ?thesis unfolding within_latency_def using wl b c by (auto simp: w')
  next
    case False
    have w': "w' = w\<lparr>clock := clock w + 1 / 1000 + oversleep w\<rparr>"
      using assms(3,4) False by (auto simp: sim_iteration [OF assms(1)])
    show ?thesis using wl cT by (auto simp: within_latency_def w')
  qed
qed

lemma within_latency_add_calls:
  "within_latency T cyc w s \<Longrightarrow> within_latency T cyc w (add_calls cs s)"
  by (simp add: within_latency_def)

subsection \<open>Runs with counters\<close>

lemma counted_iteration:
  "iteration (counted env) (w, c) s =
     (case iteration env w s of (oc, w', s') \<Rightarrow> (oc, (w', c), s'))"
  by (simp add: iteration_def counted_def split: prod.splits sum.splits option.splits)

lemma counted_loop:
  "loop (counted env) n (w, c) s = (case loop env n w s of (oc, w', s') \<Rightarrow> (oc, (w', c), s'))"
proof (induction n arbitrary: w s)
  case 0
  then show ?case by simp
next
  case (Suc n)
  obtain oc1 w1 s1 where it: "iteration env w s = (oc1, w1, s1)"
    by (cases "iteration env w s") auto
  show ?case using it Suc.IH [of w1 s1] by (cases oc1) (simp_all add: counted_iteration)
qed

lemma counted_initialise_Inr:
  "initialise env fps w = Inr (w0, s0) \<Longrightarrow>
   initialise (counted env) fps (w, a, b) = Inr ((w0, a + 1, b), s0) \<and> Call_time \<in> set (calls s0)"
  by (auto simp: initialise_def counted_def Let_def
      split: prod.splits if_splits sum.splits option.splits)

lemma counted_initialise_Inl:
  "initialise env fps w = Inl (e, w', cs) \<Longrightarrow>
   \<exists>k\<le>1. initialise (counted env) fps (w, a, b) = Inl (e, (w', a + k, b), cs)"
  by (auto simp: initialise_def counted_def Let_def
      split: prod.splits if_splits sum.splits option.splits)

subsection \<open>Rounding to a double\<close>












subsection \<open>Claims\<close>






text \<open>
  C10. With a frame interval that is not negative, \<open>next_frame_time\<close> never decreases
  over the turns of the loop: its value after \<open>m\<close> turns is at most its value after any
  \<open>n \<ge> m\<close> turns.
\<close>

theorem deadline_monotone:
  assumes "0 \<le> frame_interval s" and "m \<le> n"
  shows "next_frame_time (snd (snd (loop env m w s))) \<le> next_frame_time (snd (snd (loop env n w s)))"
proof -
  obtain k where n: "n = m + k" using assms(2) by (auto simp: le_iff_add)
  obtain oc1 w1 s1 where lm: "loop env m w s = (oc1, w1, s1)"
    by (cases "loop env m w s") auto
  show ?thesis
  proof (cases oc1)
    case Running
    obtain oc2 w2 s2 where lk: "loop env k w1 s1 = (oc2, w2, s2)"
      by (cases "loop env k w1 s1") auto
    have "0 \<le> frame_interval s1" using loop_interval [OF lm] assms(1) by simp
    from loop_mono [OF lk this] show ?thesis
      using lm lk Running by (simp add: n loop_add)
  next
    case Finished
    then show ?thesis using lm by (simp add: n loop_add)
  next
    case (Raised e)
    then show ?thesis using lm by (simp add: n loop_add)
  qed
qed

theorem deadline_monotone_witness:
  "next_frame_time (snd (snd (loop sim_env 1 (sim_start None no_cost no_cost) (sim_state 10 0))))
     \<le> next_frame_time (snd (snd (loop sim_env 3 (sim_start None no_cost no_cost) (sim_state 10 0))))"
  using deadline_monotone [of "sim_state 10 0" 1 3 sim_env "sim_start None no_cost no_cost"]
  by (simp add: sim_state_def)

text \<open>
  C3 (as amended). With the constructions of a writer and the calls of its release
  counted in the world, every run answers as it does without the counters, and:
  \<^verbatim>\<open>out.release()\<close> is called exactly once when the loop ends because the stop flag is
  seen, and not at all when an exception leaves \<^verbatim>\<open>record_screen\<close> or while the loop is still
  running; at most one writer is constructed, and exactly one once the loop is reached,
  also when an exception leaves the loop later. The list of calls agrees with the counters.
\<close>

theorem release_on_normal_exit_only:
  assumes "record_screen env fps n w = (oc, w', cs)"
  shows "\<exists>made freed.
           record_screen (counted env) fps n (w, 0, 0) = (oc, (w', made, freed), cs) \<and>
           freed = (if oc = Finished then 1 else 0) \<and>
           count_list cs Call_release = freed \<and>
           made \<le> 1 \<and> (Call_time \<in> set cs \<longrightarrow> made = 1) \<and>
           length (filter is_VideoWriter cs) \<le> 1 \<and>
           (oc = Finished \<or> oc = Running \<longrightarrow> length (filter is_VideoWriter cs) = 1)"
proof (cases "initialise env fps w")
  case (Inl r)
  obtain e wr cr where r: "r = (e, wr, cr)" by (cases r) auto
  from initialise_raises_calls [of env fps w e wr cr] Inl r
  have c: "Call_release \<notin> set cr" "length (filter is_VideoWriter cr) \<le> 1" by simp_all
  have o: "oc = Raised e" "w' = wr" "cs = cr"
    using assms Inl r by (simp_all add: record_screen_def)
  from counted_initialise_Inl [of env fps w e wr cr 0 0] Inl r obtain k where
    k: "k \<le> 1" "initialise (counted env) fps (w, 0, 0) = Inl (e, (wr, k, 0), cr)"
    by auto
  have t: "Call_time \<notin> set cr"
    using Inl r
    by (auto simp: initialise_def Let_def split: prod.splits if_splits sum.splits option.splits)
  have "record_screen (counted env) fps n (w, 0, 0) = (oc, (w', k, 0), cs)"
    using k(2) o by (simp add: record_screen_def)
  then show ?thesis using k(1) c o t by (intro exI [of _ k] exI [of _ 0]) (simp add: count_list_0)
next
  case (Inr r)
  obtain w0 s0 where r: "r = (w0, s0)" by (cases r) auto
  from initialise_calls [of env fps w w0 s0] Inr r
  have i: "Call_release \<notin> set (calls s0)" "length (filter is_VideoWriter (calls s0)) = 1"
    by simp_all
  from counted_initialise_Inr [of env fps w w0 s0 0 0] Inr r
  have ci: "initialise (counted env) fps (w, 0, 0) = Inr ((w0, 1, 0), s0)"
    and ti: "Call_time \<in> set (calls s0)" by simp_all
  obtain oc1 w1 s1 where l: "loop env n w0 s0 = (oc1, w1, s1)"
    by (cases "loop env n w0 s0") auto
  have cl: "loop (counted env) n (w0, 1, 0) s0 = (oc1, (w1, 1, 0), s1)"
    using l by (simp add: counted_loop)
  from loop_calls [OF l] obtain cl where
    c: "calls s1 = calls s0 @ cl" "Call_release \<notin> set cl" "filter is_VideoWriter cl = []"
    by blast
  have n: "count_list (calls s1) Call_release = 0" using i(1) c by (simp add: count_list_0)
  have v: "length (filter is_VideoWriter (calls s1)) = 1" using i(2) c by simp
  have t: "Call_time \<in> set (calls s1)" using ti c by simp
  have rel: "env_release (counted env) (x, i, j) = (env_release env x, i, j + 1)"
    and clo: "env_close (counted env) (x, y) = (env_close env x, y)" for x y i j
    by (simp_all add: counted_def)
  show ?thesis
  proof (cases oc1)
    case Running
    with assms Inr r l have o: "oc = Running" "w' = w1" "cs = calls s1"
      by (simp_all add: record_screen_def)
    have "record_screen (counted env) fps n (w, 0, 0) = (oc, (w', 1, 0), cs)"
      using ci cl Running o by (simp add: record_screen_def)
    then show ?thesis using n v t o by (intro exI [of _ 1] exI [of _ 0]) simp
  next
    case Finished
    with assms Inr r l have o: "oc = Finished" "w' = env_close env (env_release env w1)"
      "cs = calls s1 @ [Call_release, Call_close]"
      by (simp_all add: record_screen_def)
    have "record_screen (counted env) fps n (w, 0, 0) = (oc, (w', 1, 1), cs)"
      using ci cl Finished o by (simp add: record_screen_def rel clo)
    then show ?thesis using n v t o by (intro exI [of _ 1] exI [of _ 1]) simp
  next
    case (Raised e)
    with assms Inr r l have o: "oc = Raised e" "w' = env_close env w1"
      "cs = calls s1 @ [Call_close]"
      by (simp_all add: record_screen_def)
    have "record_screen (counted env) fps n (w, 0, 0) = (oc, (w', 1, 0), cs)"
      using ci cl Raised o by (simp add: record_screen_def clo)
    then show ?thesis using n v t o by (intro exI [of _ 1] exI [of _ 0]) simp
  qed
qed

theorem release_on_normal_exit_only_witness:
  "\<exists>w' cs. record_screen (counted sim_env) 10 3 (sim_start (Some (1 / 1000)) no_cost no_cost, 0, 0) =
      (Finished, (w', 1, 1), cs) \<and>
      count_list cs Call_release = 1 \<and> length (filter is_VideoWriter cs) = 1"
proof -
  let ?r = "record_screen sim_env 10 3 (sim_start (Some (1 / 1000)) no_cost no_cost)"
  have f: "fst ?r = Finished" by code_simp
  have t: "Call_time \<in> set (snd (snd ?r))" by code_simp
  obtain oc w' cs where r: "?r = (oc, w', cs)" by (cases ?r) auto
  from release_on_normal_exit_only [OF r] f t r show ?thesis by auto
qed

text \<open>
  The claim as stated fails: when the first write raises, one writer has been constructed
  and it is never released.
\<close>

theorem release_skipped_counterexample:
  "(case record_screen (counted sim_env) 10 5
           ((sim_start None no_cost no_cost)\<lparr>write_fails := fails_at 0\<rparr>, 0, 0) of
      (oc, (w', made, freed), cs) \<Rightarrow> (oc, made, freed, cs)) =
   (Raised Cv2Error, 1, 0,
    [Call_mss, Call_monitors, Call_VideoWriter 10 2 1, Call_time, Call_is_set, Call_time,
     Call_grab, Call_cvtColor,
     Call_write \<lparr>img_height = 1, img_width = 2, img_channels = 3, img_data = [0, 0, 0, 0, 0, 0]\<rparr>,
     Call_close])"
  by code_simp

text \<open>
  C4 (as amended). When the grab of a turn raises, after any number of completed turns,
  the loop ends there: no frame is written in that turn, no later turn is
  attempted however long the loop is allowed to run, and the exception leaves
  \<^verbatim>\<open>record_screen\<close>, which leaves the \<^verbatim>\<open>with\<close> block and does not release the writer.
\<close>

theorem capture_failure_ends_loop:
  assumes "initialise env fps wi = Inr (w0, s0)"
    and "loop env m w0 s0 = (Running, w, s)"
    and "env_is_set env w = (False, w1)"
    and "env_time env w1 = (now, w2)"
    and "next_frame_time s \<le> now"
    and "env_grab env (monitor_of s) w2 = (Inl e, w3)"
  shows "loop env (m + Suc n) w0 s0 =
           (Raised e, w3, s\<lparr>calls := calls s @ [Call_is_set, Call_time, Call_grab]\<rparr>) \<and>
         record_screen env fps (m + Suc n) wi =
           (Raised e, env_close env w3,
            calls s @ [Call_is_set, Call_time, Call_grab, Call_close])"
proof -
  have it: "iteration env w s =
              (Raised e, w3, s\<lparr>calls := calls s @ [Call_is_set, Call_time, Call_grab]\<rparr>)"
    using assms(3-6) by (simp add: iteration_def add_calls_def)
  have l: "loop env (m + Suc n) w0 s0 =
             (Raised e, w3, s\<lparr>calls := calls s @ [Call_is_set, Call_time, Call_grab]\<rparr>)"
    using assms(2) it by (simp add: loop_add del: add_Suc_right)
  show ?thesis
    using l assms(1) by (simp add: record_screen_def del: add_Suc_right)
qed

theorem capture_failure_ends_loop_witness:
  "record_screen sim_env 10 (0 + Suc 4) ((sim_start None no_cost no_cost)\<lparr>grab_fails := fails_at 0\<rparr>) =
     (Raised ScreenShotError,
      (sim_start None no_cost no_cost)\<lparr>grab_fails := fails_at 0, grabbed := 1\<rparr>,
      [Call_mss, Call_monitors, Call_VideoWriter 10 2 1, Call_time, Call_is_set, Call_time,
       Call_grab, Call_close])"
proof -
  let ?w = "(sim_start None no_cost no_cost)\<lparr>grab_fails := fails_at 0\<rparr>"
  let ?s = "\<lparr>monitor_of = sim_monitors ! 1, frame_interval = 1 / 10, next_frame_time = 0,
             calls = [Call_mss, Call_monitors, Call_VideoWriter 10 2 1, Call_time]\<rparr>"
  have i: "initialise sim_env 10 ?w = Inr (?w, ?s)"
    by (simp add: initialise_def sim_env_def sim_monitors_def sim_start_def)
  have l: "loop sim_env 0 ?w ?s = (Running, ?w, ?s)" by simp
  have a: "env_is_set sim_env ?w = (False, ?w)"
    by (simp add: sim_env_def sim_is_set_def sim_start_def)
  have b: "env_time sim_env ?w = (0, ?w)"
    by (simp add: sim_env_def sim_start_def)
  have c: "next_frame_time ?s \<le> 0" by simp
  have d: "env_grab sim_env (monitor_of ?s) ?w = (Inl ScreenShotError, ?w\<lparr>grabbed := 1\<rparr>)"
    by (simp add: sim_env_def sim_grab_def sim_start_def fails_at_def no_cost_def)
  from capture_failure_ends_loop [OF i l a b c d, of 4] show ?thesis
    by (simp add: sim_env_def)
qed

text \<open>The claim as stated fails: a grab that raises in the first turn ends the run.\<close>

theorem capture_failure_counterexample:
  "(case record_screen sim_env 10 5 ((sim_start None no_cost no_cost)\<lparr>grab_fails := fails_at 0\<rparr>) of
      (oc, w', cs) \<Rightarrow> (oc, grabbed w', cs)) =
   (Raised ScreenShotError, 1,
    [Call_mss, Call_monitors, Call_VideoWriter 10 2 1, Call_time, Call_is_set, Call_time,
     Call_grab, Call_close])"
  by code_simp

text \<open>
  C7 (as amended). When the constructor of the writer raises, the exception leaves
  \<^verbatim>\<open>record_screen\<close> and the loop never starts: the stop flag is not tested, nothing is
  grabbed or written. When the constructor returns a writer, opened or not, the loop is
  reached with the same state: the writer is never inspected.
\<close>

theorem writer_never_inspected:
  assumes "env_mss env w = (None, w1)"
    and "env_monitors env w1 = (monitors, w2)"
    and "1 < length monitors"
    and "width = mon_width (monitors ! 1)"
    and "height = mon_height (monitors ! 1)"
  shows "(env_VideoWriter env fps (width, height) w2 = (Inl e, w3) \<longrightarrow>
            record_screen env fps n w =
              (Raised e, env_close env w3,
               [Call_mss, Call_monitors, Call_VideoWriter fps width height, Call_close])) \<and>
         (env_VideoWriter env fps (width, height) w2 = (Inr opened, w3) \<and> fps \<noteq> 0 \<and>
          env_time env w3 = (t0, w4) \<longrightarrow>
            initialise env fps w =
              Inr (w4,
                   \<lparr>monitor_of = monitors ! 1, frame_interval = 1 / fps, next_frame_time = t0,
                    calls = [Call_mss, Call_monitors, Call_VideoWriter fps width height,
                             Call_time]\<rparr>) \<and>
            record_screen env fps 0 w =
              (Running, w4,
               [Call_mss, Call_monitors, Call_VideoWriter fps width height, Call_time]))"
  using assms by (auto simp: record_screen_def initialise_def Let_def)

theorem writer_never_inspected_witness:
  "record_screen raising_writer 10 5 (sim_start None no_cost no_cost) =
     (Raised Cv2Error, sim_start None no_cost no_cost,
      [Call_mss, Call_monitors, Call_VideoWriter 10 2 1, Call_close]) \<and>
   record_screen sim_env 10 0 ((sim_start None no_cost no_cost)\<lparr>sink_ok := False\<rparr>) =
     (Running, (sim_start None no_cost no_cost)\<lparr>sink_ok := False\<rparr>,
      [Call_mss, Call_monitors, Call_VideoWriter 10 2 1, Call_time])"
proof -
  let ?w = "sim_start None no_cost no_cost"
  let ?v = "?w\<lparr>sink_ok := False\<rparr>"
  have a: "env_mss raising_writer ?w = (None, ?w)" "env_monitors raising_writer ?w = (sim_monitors, ?w)"
    and b: "env_mss sim_env ?v = (None, ?v)" "env_monitors sim_env ?v = (sim_monitors, ?v)"
    and l: "1 < length sim_monitors"
    and d: "2 = mon_width (sim_monitors ! 1)" "1 = mon_height (sim_monitors ! 1)"
    by (simp_all add: raising_writer_def sim_env_def sim_monitors_def)
  have r: "env_VideoWriter raising_writer 10 (2, 1) ?w = (Inl Cv2Error, ?w)"
    "env_close raising_writer ?w = ?w"
    by (simp_all add: raising_writer_def sim_env_def)
  have o: "env_VideoWriter sim_env 10 (2, 1) ?v = (Inr False, ?v)" "env_time sim_env ?v = (0, ?v)"
    by (simp_all add: sim_env_def sim_start_def)
  from writer_never_inspected [OF a l d, where fps = 10 and e = Cv2Error and ?w3.0 = ?w and n = 5] r
  have 1: "record_screen raising_writer 10 5 ?w =
            (Raised Cv2Error, ?w, [Call_mss, Call_monitors, Call_VideoWriter 10 2 1, Call_close])"
    by simp
  from writer_never_inspected [OF b l d, where fps = 10 and opened = False and ?w3.0 = ?v
      and ?t0.0 = 0 and ?w4.0 = ?v] o
  have 2: "record_screen sim_env 10 0 ?v =
            (Running, ?v, [Call_mss, Call_monitors, Call_VideoWriter 10 2 1, Call_time])"
    by simp
  from 1 2 show ?thesis by simp
qed

text \<open>
  The claim as stated fails: with a sink that could not be opened and a constructor that
  returns, the loop runs, and a frame is grabbed and handed to the writer.
\<close>

theorem writer_not_opened_counterexample:
  "(case record_screen sim_env 10 3 ((sim_start (Some (1 / 1000)) no_cost no_cost)\<lparr>sink_ok := False\<rparr>) of
      (oc, w', cs) \<Rightarrow> (oc, sink_ok w', grabbed w', cs)) =
   (Finished, False, 1,
    [Call_mss, Call_monitors, Call_VideoWriter 10 2 1, Call_time, Call_is_set, Call_time,
     Call_grab, Call_cvtColor,
     Call_write \<lparr>img_height = 1, img_width = 2, img_channels = 3, img_data = [0, 0, 0, 0, 0, 0]\<rparr>,
     Call_is_set, Call_time, Call_sleep (1 / 1000), Call_is_set, Call_release, Call_close])"
  by code_simp




text \<open>
  C5. In every run, whatever the environment, the stop flag is tested once in each turn of
  the loop, whether the turn grabs a frame or sleeps, and once more in the turn that ends
  the loop; and nothing but the end of the \<^verbatim>\<open>with\<close> block follows the release of the
  writer, so no frame is written after it. In the simulated world, with the flag set at
  time \<open>T\<close>, every grab with its write taking at most \<open>cyc\<close> and the sleep taking
  \<open>1 / 1000 + os\<close>, the run ends, at a time at most \<open>T\<close> plus the larger of one cycle and
  one sleep (so at most \<open>T\<close> plus one cycle plus one sleep); every write began less than
  one cycle after \<open>T\<close>, and the writer is released once.
\<close>

theorem stop_honoured:
  assumes "0 < fps" and "0 \<le> T" and "0 \<le> os"
    and "\<forall>k. 0 \<le> gc k" and "\<forall>k. 0 \<le> wc k" and "\<forall>k. gc k + wc k \<le> cyc"
    and "nat \<lceil>T * 1000\<rceil> + nat (\<lfloor>T * fps\<rfloor> + 1) < n"
  shows "(\<forall>oc w' cs. record_screen env r m w = (oc, w', cs) \<longrightarrow>
            count_list cs Call_is_set =
              count_list cs Call_grab + count_list cs (Call_sleep (1 / 1000)) +
              (if oc = Finished then 1 else 0) \<and>
            dropWhile (\<lambda>c. c \<noteq> Call_release) cs =
              (if oc = Finished then [Call_release, Call_close] else [])) \<and>
         (\<exists>w' cs. record_screen sim_env fps n ((sim_start (Some T) gc wc)\<lparr>oversleep := os\<rparr>) =
              (Finished, w', cs) \<and>
            T \<le> clock w' \<and> clock w' \<le> T + max cyc (1 / 1000 + os) \<and>
            clock w' \<le> T + cyc + (1 / 1000 + os) \<and>
            (\<forall>t\<in>set (written_at w'). t < T + cyc) \<and> released w' = 1)"
proof
  show "\<forall>oc w' cs. record_screen env r m w = (oc, w', cs) \<longrightarrow>
          count_list cs Call_is_set =
            count_list cs Call_grab + count_list cs (Call_sleep (1 / 1000)) +
            (if oc = Finished then 1 else 0) \<and>
          dropWhile (\<lambda>c. c \<noteq> Call_release) cs =
            (if oc = Finished then [Call_release, Call_close] else [])"
    by (intro allI impI) (rule record_screen_turns)
next
  let ?w = "(sim_start (Some T) gc wc)\<lparr>oversleep := os\<rparr>"
  let ?s = "sim_locals fps ?w"
  have cyc: "0 \<le> cyc"
  proof -
    have "0 \<le> gc 0 + wc 0" using assms(4,5) by (simp add: add_nonneg_nonneg)
    also have "\<dots> \<le> cyc" using assms(6) by blast
    finally show ?thesis .
  qed
  have st: "steady ?w" using assms(3-5) by (simp add: steady_def sim_start_def)
  have sa: "stop_at ?w = Some T" by (simp add: sim_start_def)
  have fi: "0 < frame_interval ?s" using assms(1) by (simp add: sim_locals_def)
  have pot: "potential T ?w ?s < n"
    using assms(7) by (simp add: potential_def sim_locals_def sim_start_def)
  have p0: "within_latency T cyc ?w ?s"
    using assms(2,3,6) cyc by (simp add: within_latency_def sim_start_def max_def)
  obtain oc w' s' where l: "loop sim_env n ?w ?s = (oc, w', s')"
    by (cases "loop sim_env n ?w ?s") auto
  have fin: "oc = Finished" using sim_loop_terminates [OF st sa fi pot] l by simp
  have "within_latency T cyc w' s' \<and> same_setup ?w w' \<and> oc \<noteq> Raised ScreenShotError \<and>
        (oc = Finished \<longrightarrow> sim_is_set w')"
    by (rule sim_loop_invariant [where P = "within_latency T cyc", OF st p0 _ _ l])
      (auto intro: within_latency_step within_latency_add_calls)
  with fin have wl: "within_latency T cyc w' s'" and su: "same_setup ?w w'" and set: "sim_is_set w'"
    by simp_all
  have os': "oversleep w' = os" using su by (simp add: same_setup_def sim_start_def)
  have Tc: "T \<le> clock w'" using set wl by (simp add: sim_is_set_def within_latency_def)
  have up: "clock w' \<le> T + max cyc (1 / 1000 + os)"
    using wl os' by (simp add: within_latency_def)
  have up2: "clock w' \<le> T + cyc + (1 / 1000 + os)"
    using up cyc assms(3) by (simp add: max_def split: if_splits)
  have wr: "\<forall>t\<in>set (written_at w'). t < T + cyc" and rel: "released w' = 0"
    using wl by (simp_all add: within_latency_def)
  have rs: "record_screen sim_env fps n ?w =
              (Finished, w'\<lparr>released := released w' + 1\<rparr>, calls s' @ [Call_release, Call_close])"
    using sim_record_screen [OF _ l] assms(1) fin by simp
  show "\<exists>w' cs. record_screen sim_env fps n ?w = (Finished, w', cs) \<and>
          T \<le> clock w' \<and> clock w' \<le> T + max cyc (1 / 1000 + os) \<and>
          clock w' \<le> T + cyc + (1 / 1000 + os) \<and>
          (\<forall>t\<in>set (written_at w'). t < T + cyc) \<and> released w' = 1"
    using rs Tc up up2 wr rel
    by (intro exI [of _ "w'\<lparr>released := released w' + 1\<rparr>"] exI) simp
qed

theorem stop_honoured_witness:
  "count_list (snd (snd (record_screen sim_env 10 3 (sim_start (Some (1 / 1000)) no_cost no_cost))))
     Call_is_set = 3 \<and>
   (\<exists>w' cs. record_screen sim_env 10 103
        ((sim_start (Some (1 / 10)) no_cost (one_stall 0 (1 / 20)))\<lparr>oversleep := 0\<rparr>) =
        (Finished, w', cs) \<and>
      1 / 10 \<le> clock w' \<and> clock w' \<le> 1 / 10 + 1 / 20 + (1 / 1000 + 0) \<and> released w' = 1)"
proof -
  let ?r = "record_screen sim_env 10 3 (sim_start (Some (1 / 1000)) no_cost no_cost)"
  have a: "(0::rat) < 10" "(0::rat) \<le> 1 / 10" "(0::rat) \<le> 0" "\<forall>k. 0 \<le> no_cost k"
    "\<forall>k. 0 \<le> one_stall 0 (1 / 20) k" "\<forall>k. no_cost k + one_stall 0 (1 / 20) k \<le> 1 / 20"
    "nat \<lceil>(1 / 10 :: rat) * 1000\<rceil> + nat (\<lfloor>(1 / 10 :: rat) * 10\<rfloor> + 1) < 103"
    by (simp_all add: no_cost_def one_stall_def)
  note t = stop_honoured [OF a, of sim_env 10 3 "sim_start (Some (1 / 1000)) no_cost no_cost"]
  obtain oc w' cs where r: "?r = (oc, w', cs)" by (cases ?r) auto
  have f: "fst ?r = Finished" by code_simp
  have g: "count_list (snd (snd ?r)) Call_grab = 1"
    "count_list (snd (snd ?r)) (Call_sleep (1 / 1000)) = 1" by code_simp+
  from t r have "count_list cs Call_is_set =
      count_list cs Call_grab + count_list cs (Call_sleep (1 / 1000)) +
      (if oc = Finished then 1 else 0)" by blast
  with r f g have 1: "count_list (snd (snd ?r)) Call_is_set = 3" by simp
  from t have 2: "\<exists>w' cs. record_screen sim_env 10 103
        ((sim_start (Some (1 / 10)) no_cost (one_stall 0 (1 / 20)))\<lparr>oversleep := 0\<rparr>) =
        (Finished, w', cs) \<and>
      1 / 10 \<le> clock w' \<and> clock w' \<le> 1 / 10 + 1 / 20 + (1 / 1000 + 0) \<and> released w' = 1"
    by blast
  from 1 2 show ?thesis by blast
qed

end
